theory Spec2Isabelle
  imports
    Complex_Main
    "HOL-Library.Multiset"
    "HOL-Library.Char_ord"
    "HOL-Library.List_Lexorder"
    "HOL-Library.Word"
begin

section \<open>Go values\<close>

text \<open>
  A Go \<open>string\<close> is a sequence of bytes, compared bytewise; it is modelled as
  \<^typ>\<open>string\<close> with the order of \<open>Char_ord\<close> and \<open>List_Lexorder\<close>, and \<open>len\<close> of a
  string counts bytes. A run-time panic is a value of \<open>panic\<close>. Go's \<open>int\<close> is taken to be
  64 bits wide (as on amd64): integer results are reduced to the two's complement range by
  \<open>wrap64\<close>, the quotient truncates towards zero and a zero divisor panics.
\<close>

datatype panic = IntegerDivideByZero | SliceBoundsOutOfRange | NilPointerDereference

definition MaxInt64 :: int where
  "MaxInt64 = 2 ^ 63 - 1"

definition wrap64 :: "int \<Rightarrow> int" where
  "wrap64 x = (x + 2 ^ 63) mod 2 ^ 64 - 2 ^ 63"

definition go_add :: "int \<Rightarrow> int \<Rightarrow> int" where
  "go_add a b = wrap64 (a + b)"

definition go_sub :: "int \<Rightarrow> int \<Rightarrow> int" where
  "go_sub a b = wrap64 (a - b)"

definition go_quo :: "int \<Rightarrow> int \<Rightarrow> panic + int" where
  "go_quo a b =
     (if b = 0 then Inl IntegerDivideByZero
      else Inr (wrap64 (sgn a * sgn b * (\<bar>a\<bar> div \<bar>b\<bar>))))"

definition len :: "'a list \<Rightarrow> int" where
  "len s = int (length s)"

text \<open>
  The slice expression \<open>s[lo:hi]\<close> panics unless \<open>0 \<le> lo \<le> hi \<le> cap(s)\<close>. The capacity
  of the argument of \<open>Chunk\<close> is not known; the only upper bound \<open>Chunk\<close> ever passes is
  clamped to \<open>len(s)\<close>, so the check against the capacity is written against the length.
\<close>

definition slice_ok :: "'a list \<Rightarrow> int \<Rightarrow> int \<Rightarrow> bool" where
  "slice_ok s lo hi = (0 \<le> lo \<and> lo \<le> hi \<and> hi \<le> len s)"

definition slice :: "'a list \<Rightarrow> int \<Rightarrow> int \<Rightarrow> 'a list" where
  "slice s lo hi = take (nat (hi - lo)) (drop (nat lo) s)"

section \<open>pkg/util/types/awsstringslice.go\<close>

subsection \<open>AWSStringSlice\<close>

text \<open>
  \<open>type AWSStringSlice []*string\<close>: an element is a pointer to a string, \<open>None\<close> being the
  nil pointer. Two pointers to equal strings are not told apart.
\<close>

type_synonym AWSStringSlice = "string option list"

text \<open>\<open>Less(i, j)\<close> is \<open>*n[i] < *n[j]\<close>: it dereferences both elements.\<close>

definition Less :: "AWSStringSlice \<Rightarrow> nat \<Rightarrow> nat \<Rightarrow> panic + bool" where
  "Less n i j =
     (case (n ! i, n ! j) of
        (Some x, Some y) \<Rightarrow> Inr (x < y)
      | _ \<Rightarrow> Inl NilPointerDereference)"

text \<open>
  \<open>sort.Sort\<close> of the Go library, by its contract: it permutes the slice in place, through
  \<open>Swap\<close>, into ascending order of \<open>Less\<close>; it is not stable, which pointers to equal strings
  do not show. A slice of fewer than two elements is left alone without a call of \<open>Less\<close>;
  on a longer one every element is compared at least once, so a nil element panics.
\<close>

definition sort_Sort :: "AWSStringSlice \<Rightarrow> panic + AWSStringSlice" where
  "sort_Sort n =
     (if 2 \<le> length n \<and> None \<in> set n then Inl NilPointerDereference
      else Inr (sort_key the n))"

subsection \<open>Hash\<close>

text \<open>\<open>hex.EncodeToString\<close>: two lowercase hexadecimal digits for each byte.\<close>

definition hexdigit :: "nat \<Rightarrow> char" where
  "hexdigit d = ''0123456789abcdef'' ! d"

definition hex_EncodeToString :: "string \<Rightarrow> string" where
  "hex_EncodeToString bs =
     concat (map (\<lambda>b. [hexdigit (of_char b div 16), hexdigit (of_char b mod 16)]) bs)"

text \<open>
  The loop over the sorted slice, which writes the bytes of each \<open>*str\<close> to the hasher:
  the second argument is what has been written to the hasher so far.
\<close>

fun Hash_write :: "AWSStringSlice \<Rightarrow> string \<Rightarrow> panic + string" where
  "Hash_write [] written = Inr written"
| "Hash_write (None # rest) written = Inl NilPointerDereference"
| "Hash_write (Some str # rest) written = Hash_write rest (written @ str)"

text \<open>
  \<open>Hash\<close> has a value receiver, but a slice value shares its backing array with the
  caller's slice: what \<open>sort.Sort(a)\<close> moves, the caller sees. The model therefore returns
  the contents of the caller's slice after the call together with the digest. \<open>md5\<close> stands
  for \<open>crypto/md5\<close> (the digest of the bytes written); it is a parameter. After a panic the
  contents of the slice are not described.
\<close>

definition Hash :: "(string \<Rightarrow> string) \<Rightarrow> AWSStringSlice \<Rightarrow> panic + (AWSStringSlice \<times> string)" where
  "Hash md5 a =
     (case sort_Sort a of
        Inl p \<Rightarrow> Inl p
      | Inr a' \<Rightarrow>
          (case Hash_write a' [] of
             Inl p \<Rightarrow> Inl p
           | Inr written \<Rightarrow> Inr (a', hex_EncodeToString (md5 written))))"

text \<open>The value \<open>Hash\<close> returns (or its panic), without the slice.\<close>

definition Hash_output :: "(string \<Rightarrow> string) \<Rightarrow> AWSStringSlice \<Rightarrow> panic + string" where
  "Hash_output md5 a = map_sum id snd (Hash md5 a)"

subsection \<open>Chunk\<close>

text \<open>The upper bound of one group: \<open>end := i + chunkSize\<close>, clamped to \<open>len(s)\<close>.\<close>

definition chunk_end :: "'a list \<Rightarrow> int \<Rightarrow> int \<Rightarrow> int" where
  "chunk_end s chunkSize i =
     (let end = go_add i chunkSize in if end > len s then len s else end)"

text \<open>
  The loop \<open>for i := 0; i < len(s); i += chunkSize\<close>. With \<open>chunkSize = 0\<close> it never ends,
  so the loop is a partial function: \<open>None\<close> is a call that does not return,
  \<open>Some (Inl p)\<close> a panic, \<open>Some (Inr chunks)\<close> the value returned.
\<close>

partial_function (option) Chunk_loop ::
  "'a list \<Rightarrow> int \<Rightarrow> int \<Rightarrow> 'a list list \<Rightarrow> (panic + 'a list list) option" where
  "Chunk_loop s chunkSize i chunks =
     (if i < len s then
        (if slice_ok s i (chunk_end s chunkSize i)
         then Chunk_loop s chunkSize (go_add i chunkSize)
                (chunks @ [slice s i (chunk_end s chunkSize i)])
         else Some (Inl SliceBoundsOutOfRange))
      else Some (Inr chunks))"

declare Chunk_loop.simps [code]

definition Chunk :: "'a list \<Rightarrow> int \<Rightarrow> (panic + 'a list list) option" where
  "Chunk s sz =
     (case go_quo (go_sub (go_add (len s) sz) 1) sz of
        Inl p \<Rightarrow> Some (Inl p)
      | Inr chunkSize \<Rightarrow> Chunk_loop s chunkSize 0 [])"

section \<open>The controller\<close>

subsection \<open>Data\<close>

text \<open>
  Modelled from the spec: the type \<open>ALBIngress\<close> of package \<open>pkg/ingress\<close> is not among the
  sources. The spec's data model gives a managed resource an identity (namespace and
  name), the latest desired configuration, the handle of the backing load balancer (nil
  when there is none) and the taint mark; the controller reads the fields \<open>Tainted\<close> and
  \<open>LoadBalancer\<close>. Configuration and handle are opaque and stand as strings.
\<close>

record ALBIngress =
  Identity :: "string \<times> string"
  DesiredSpec :: "string option"
  LoadBalancer :: "string option"
  Tainted :: bool

type_synonym ALBIngressesT = "ALBIngress list"

text \<open>
  Modelled from the spec: \<open>ALBIngressesT.Find\<close> is not among the sources. The spec:
  lookup by identity, returning the index or not-found, with equality on the identity and
  not on the content. Not-found is \<open>-1\<close>, as the callers' test \<open>i < 0\<close> expects.
\<close>

fun Find_from :: "int \<Rightarrow> ALBIngressesT \<Rightarrow> ALBIngress \<Rightarrow> int" where
  "Find_from p [] b = - 1"
| "Find_from p (v # rest) b = (if Identity v = Identity b then p else Find_from (p + 1) rest b)"

definition Find :: "ALBIngressesT \<Rightarrow> ALBIngress \<Rightarrow> int" where
  "Find a b = Find_from 0 a b"

text \<open>
  Modelled from the spec: \<open>ALBIngress.StripDesiredState\<close> is not among the sources. The
  spec: the resource has its desired specification cleared.
\<close>

definition StripDesiredState :: "ALBIngress \<Rightarrow> ALBIngress" where
  "StripDesiredState a = a\<lparr>DesiredSpec := None\<rparr>"

text \<open>
  The Kubernetes service objects the controller reads: \<open>Spec.Type\<close> (a string type) and
  \<open>Spec.Ports\<close>, whose entries carry the \<open>int32\<close> fields \<open>Port\<close> and \<open>NodePort\<close>.
\<close>

record ServicePort =
  Port :: "32 word"
  NodePort :: "32 word"

record Service =
  Spec_Type :: string
  Spec_Ports :: "ServicePort list"

definition ServiceTypeNodePort :: string where
  "ServiceTypeNodePort = ''NodePort''"

text \<open>
  \<open>ALBController\<close>. The store lister is kept as what the controller asks of it: the list of
  ingress objects (\<open>storeLister.Ingress.List()\<close>, of an opaque type \<open>'ing\<close>) and the lookup
  of a service by key (\<open>storeLister.Service.GetByKey\<close>: \<open>None\<close> is \<open>exists = false\<close>; the
  error it also returns is discarded by the caller). The recorder is an opaque handle.
\<close>

record 'ing ALBController =
  storeLister_Ingress :: "'ing list"
  storeLister_Service :: "string \<Rightarrow> Service option"
  recorder :: "string option"
  ALBIngresses :: ALBIngressesT
  clusterName :: string
  IngressClass :: string

record GenericController =
  ic_IngressClass :: string
  ic_GetRecoder :: "string option"

subsection \<open>Configure\<close>

text \<open>\<open>strings.Contains(s, substr)\<close>: \<open>substr\<close> occurs somewhere within \<open>s\<close>.\<close>

fun strings_HasPrefix :: "string \<Rightarrow> string \<Rightarrow> bool" where
  "strings_HasPrefix s [] = True"
| "strings_HasPrefix [] (c # cs) = False"
| "strings_HasPrefix (x # xs) (c # cs) = (x = c \<and> strings_HasPrefix xs cs)"

fun strings_Contains :: "string \<Rightarrow> string \<Rightarrow> bool" where
  "strings_Contains [] substr = (substr = [])"
| "strings_Contains (x # xs) substr =
     (strings_HasPrefix (x # xs) substr \<or> strings_Contains xs substr)"

text \<open>
  Modelled from the spec: \<open>Logger.Exitf\<close> of package \<open>pkg/util/log\<close> is not among the
  sources. The spec: with an invalid cluster identity the process must not proceed;
  \<open>Exitf\<close> logs the message and ends the process, so nothing after it runs. \<open>Inl\<close> carries
  the message the process exits with.
\<close>

definition Configure ::
  "'ing ALBController \<Rightarrow> GenericController \<Rightarrow> string + 'ing ALBController" where
  "Configure ac ic =
     (let ac1 = ac\<lparr>IngressClass := ic_IngressClass ic\<rparr> in
      if length (clusterName ac1) > 11
        then Inl ''Cluster name must be 11 characters or less''
      else if clusterName ac1 = ''''
        then Inl ''A cluster name must be defined''
      else if strings_Contains (clusterName ac1) ''-''
        then Inl (''Cluster name cannot contain '-'' @ [CHR 0x27])
      else Inr (ac1\<lparr>recorder := ic_GetRecoder ic\<rparr>))"

subsection \<open>GetServiceNodePort\<close>

datatype error =
    UnableToFindService string
  | NotOfTypeNodePort string
  | UnableToFindPort string

text \<open>
  The loop over \<open>Spec.Ports\<close>: the first entry whose \<open>Port\<close> is the backend port decides;
  \<open>int64(p.NodePort)\<close> extends the sign.
\<close>

fun GetServiceNodePort_ports :: "string \<Rightarrow> ServicePort list \<Rightarrow> 32 word \<Rightarrow> error + 64 word" where
  "GetServiceNodePort_ports serviceKey [] backendPort = Inl (UnableToFindPort serviceKey)"
| "GetServiceNodePort_ports serviceKey (p # rest) backendPort =
     (if Port p = backendPort then Inr (scast (NodePort p))
      else GetServiceNodePort_ports serviceKey rest backendPort)"

definition GetServiceNodePort ::
  "'ing ALBController \<Rightarrow> string \<Rightarrow> 32 word \<Rightarrow> error + 64 word" where
  "GetServiceNodePort ac serviceKey backendPort =
     (case storeLister_Service ac serviceKey of
        None \<Rightarrow> Inl (UnableToFindService serviceKey)
      | Some item \<Rightarrow>
          if Spec_Type item \<noteq> ServiceTypeNodePort then Inl (NotOfTypeNodePort serviceKey)
          else GetServiceNodePort_ports serviceKey (Spec_Ports item) backendPort)"

subsection \<open>ingressToDelete\<close>

text \<open>
  The loop over the controller's current list. The ingresses are pointers:
  \<open>StripDesiredState\<close> changes the object in place, so the object is changed in the
  controller's list as well as in the list returned. The loop state is the part of the
  controller's list already visited (as the objects now are) and \<open>deleteableIngress\<close>.
\<close>

fun ingressToDelete_loop ::
  "ALBIngressesT \<Rightarrow> ALBIngressesT \<Rightarrow> ALBIngressesT \<times> ALBIngressesT \<Rightarrow>
   ALBIngressesT \<times> ALBIngressesT" where
  "ingressToDelete_loop newList [] (visited, deleteableIngress) = (visited, deleteableIngress)"
| "ingressToDelete_loop newList (ingress # rest) (visited, deleteableIngress) =
     (if Tainted ingress
        then ingressToDelete_loop newList rest (visited @ [ingress], deleteableIngress)
      else if Find newList ingress < 0 then
        (if LoadBalancer ingress \<noteq> None
           then ingressToDelete_loop newList rest
                  (visited @ [StripDesiredState ingress],
                   deleteableIngress @ [StripDesiredState ingress])
         else ingressToDelete_loop newList rest (visited @ [ingress], deleteableIngress))
      else ingressToDelete_loop newList rest (visited @ [ingress], deleteableIngress))"

text \<open>The list returned, and the controller as the call leaves it.\<close>

definition ingressToDelete :: "'ing ALBController \<Rightarrow> ALBIngressesT \<Rightarrow> ALBIngressesT" where
  "ingressToDelete ac newList = snd (ingressToDelete_loop newList (ALBIngresses ac) ([], []))"

definition ingressToDelete_ac :: "'ing ALBController \<Rightarrow> ALBIngressesT \<Rightarrow> 'ing ALBController" where
  "ingressToDelete_ac ac newList =
     ac\<lparr>ALBIngresses := fst (ingressToDelete_loop newList (ALBIngresses ac) ([], []))\<rparr>"

subsection \<open>OnUpdate\<close>

text \<open>
  What \<open>OnUpdate\<close> calls outside the sources: \<open>class.IsValid\<close> of the ingress library, and
  \<open>NewALBIngressFromIngress\<close> of package \<open>pkg/ingress\<close>, which is given the ingress object,
  the controller's current list and the cluster name, and returns a pointer (nil or an
  ALBIngress) and an error (nil or not); and \<open>ALBIngress.Reconcile\<close>, which returns nothing
  and leaves its outcome in the object. They are parameters, so whatever is proved holds
  for every behaviour of theirs.
\<close>

record 'ing collaborators =
  class_IsValid :: "'ing \<Rightarrow> string \<Rightarrow> string \<Rightarrow> bool"
  NewALBIngressFromIngress ::
    "'ing \<Rightarrow> ALBIngressesT \<Rightarrow> string \<Rightarrow> ALBIngress option \<times> string option"
  Reconcile :: "ALBIngress \<Rightarrow> ALBIngress"

definition DefaultIngressClass :: string where
  "DefaultIngressClass = ''alb''"

text \<open>Lines 97 to 121: the loop that builds the new list.\<close>

fun OnUpdate_build ::
  "'ing collaborators \<Rightarrow> 'ing ALBController \<Rightarrow> 'ing list \<Rightarrow> ALBIngressesT \<Rightarrow> ALBIngressesT" where
  "OnUpdate_build env ac [] ALBIngresses' = ALBIngresses'"
| "OnUpdate_build env ac (ingResource # rest) ALBIngresses' =
     (if \<not> class_IsValid env ingResource (IngressClass ac) DefaultIngressClass
        then OnUpdate_build env ac rest ALBIngresses'
      else
        (case NewALBIngressFromIngress env ingResource (ALBIngresses ac) (clusterName ac) of
           (None, err) \<Rightarrow> OnUpdate_build env ac rest ALBIngresses'
         | (Some ALBIngress', err) \<Rightarrow>
             OnUpdate_build env ac rest
               (ALBIngresses' @
                  [if err \<noteq> None then ALBIngress'\<lparr>Tainted := True\<rparr> else ALBIngress'])))"

text \<open>
  Lines 124 to 129: the deletable ingresses, if there are any, are appended to the new
  list. The objects appended are the ones of the controller's previous list, stripped.
\<close>

definition OnUpdate_merged :: "'ing collaborators \<Rightarrow> 'ing ALBController \<Rightarrow> ALBIngressesT" where
  "OnUpdate_merged env ac =
     (let ALBIngresses' = OnUpdate_build env ac (storeLister_Ingress ac) [];
          deletable = ingressToDelete ac ALBIngresses'
      in if length deletable > 0 then ALBIngresses' @ deletable else ALBIngresses')"

text \<open>
  From line 131 on the function is run step by step, since goroutines and the status
  handler run beside it. \<open>Line133\<close>: the assignment \<open>ac.ALBIngresses = ALBIngresses\<close> is
  next. \<open>Line139 k\<close>: the loop that starts the goroutines is about to start number \<open>k\<close>.
  \<open>Line145\<close>: the function is at \<open>wg.Wait()\<close>. \<open>Returned e\<close>: it has returned the error \<open>e\<close>,
  \<open>None\<close> being nil.
\<close>

datatype control = Line133 | Line139 nat | Line145 | Returned "error option"

record 'ing cycle =
  controller :: "'ing ALBController"
  local_ALBIngresses :: ALBIngressesT
  finished :: "nat set"
  pc :: control

text \<open>Goroutine \<open>i\<close> has been started.\<close>

fun started :: "'ing cycle \<Rightarrow> nat \<Rightarrow> bool" where
  "started c i =
     (case pc c of
        Line133 \<Rightarrow> False
      | Line139 k \<Rightarrow> i < k
      | Line145 \<Rightarrow> i < length (ALBIngresses (controller c))
      | Returned e \<Rightarrow> i < length (ALBIngresses (controller c)))"

text \<open>
  The state at line 131: the new list is built and merged with the deletable ingresses,
  the controller still holds its previous list (with the deletable objects stripped in
  place), no goroutine exists.
\<close>

definition OnUpdate_line131 :: "'ing collaborators \<Rightarrow> 'ing ALBController \<Rightarrow> 'ing cycle" where
  "OnUpdate_line131 env ac =
     \<lparr>controller =
        ingressToDelete_ac ac (OnUpdate_build env ac (storeLister_Ingress ac) []),
      local_ALBIngresses = OnUpdate_merged env ac,
      finished = {},
      pc = Line133\<rparr>"

text \<open>
  One step of the cycle. A goroutine reconciles its ingress in place (the object is the
  one in the controller's list) and calls \<open>wg.Done\<close>; \<open>wg.Wait\<close> returns when every one of
  the \<open>len(ac.ALBIngresses)\<close> goroutines has called \<open>wg.Done\<close>.
\<close>

inductive OnUpdate_step :: "'ing collaborators \<Rightarrow> 'ing cycle \<Rightarrow> 'ing cycle \<Rightarrow> bool"
  for env :: "'ing collaborators" where
  assign:
    "pc c = Line133 \<Longrightarrow>
     OnUpdate_step env c
       (c\<lparr>controller := (controller c)\<lparr>ALBIngresses := local_ALBIngresses c\<rparr>,
          pc := Line139 0\<rparr>)"
| spawn:
    "pc c = Line139 k \<Longrightarrow> k < length (ALBIngresses (controller c)) \<Longrightarrow>
     OnUpdate_step env c (c\<lparr>pc := Line139 (Suc k)\<rparr>)"
| spawned:
    "pc c = Line139 k \<Longrightarrow> \<not> k < length (ALBIngresses (controller c)) \<Longrightarrow>
     OnUpdate_step env c (c\<lparr>pc := Line145\<rparr>)"
| goroutine:
    "started c i \<Longrightarrow> i \<notin> finished c \<Longrightarrow>
     OnUpdate_step env c
       (c\<lparr>controller := (controller c)\<lparr>ALBIngresses :=
             (ALBIngresses (controller c))[i := Reconcile env (ALBIngresses (controller c) ! i)]\<rparr>,
          finished := insert i (finished c)\<rparr>)"
| wait:
    "pc c = Line145 \<Longrightarrow> {0 ..< length (ALBIngresses (controller c))} \<subseteq> finished c \<Longrightarrow>
     OnUpdate_step env c (c\<lparr>pc := Returned None\<rparr>)"

text \<open>The states a cycle can be in: any number of steps from the given state.\<close>

definition OnUpdate_reaches :: "'ing collaborators \<Rightarrow> 'ing cycle \<Rightarrow> 'ing cycle \<Rightarrow> bool" where
  "OnUpdate_reaches env = (OnUpdate_step env)\<^sup>*\<^sup>*"

subsection \<open>StateHandler\<close>

text \<open>
  \<open>StateHandler\<close> encodes \<open>ac.ALBIngresses\<close> as it is when the request arrives: the list a
  reader sees in a given state of the cycle.
\<close>

definition StateHandler :: "'ing cycle \<Rightarrow> ALBIngressesT" where
  "StateHandler c = ALBIngresses (controller c)"

section \<open>Specification-side definitions and example values\<close>

text \<open>
  The spec's description of the diff step, in its own words: a resource of the previous
  set is deletable when it is not tainted, its identity is not in the new set and its
  external handle is not nil.
\<close>

definition deletable_spec :: "ALBIngressesT \<Rightarrow> ALBIngress \<Rightarrow> bool" where
  "deletable_spec D r = (\<not> Tainted r \<and> Identity r \<notin> Identity ` set D \<and> LoadBalancer r \<noteq> None)"

text \<open>
  What the controller's list holds once the new list \<open>new\<close> has been assigned and the
  goroutines of the indices in \<open>F\<close> have finished: \<open>Reconcile\<close> has been applied to just
  those entries.
\<close>

definition reconciled_view :: "'ing collaborators \<Rightarrow> ALBIngressesT \<Rightarrow> nat set \<Rightarrow> ALBIngressesT" where
  "reconciled_view env new F =
     map (\<lambda>i. if i \<in> F then Reconcile env (new ! i) else new ! i) [0 ..< length new]"

text \<open>
  The invariant of a cycle started with the previous list \<open>prev\<close> and the merged new list
  \<open>new\<close>, by the line the function is at.
\<close>

definition OnUpdate_inv ::
  "'ing collaborators \<Rightarrow> ALBIngressesT \<Rightarrow> ALBIngressesT \<Rightarrow> 'ing cycle \<Rightarrow> bool" where
  "OnUpdate_inv env prev new c =
     (local_ALBIngresses c = new \<and> finished c \<subseteq> {0 ..< length new} \<and>
      (case pc c of
         Line133 \<Rightarrow> ALBIngresses (controller c) = prev \<and> finished c = {}
       | Line139 k \<Rightarrow>
           ALBIngresses (controller c) = reconciled_view env new (finished c) \<and>
           k \<le> length new \<and> finished c \<subseteq> {0 ..< k}
       | Line145 \<Rightarrow> ALBIngresses (controller c) = reconciled_view env new (finished c)
       | Returned e \<Rightarrow>
           ALBIngresses (controller c) = reconciled_view env new (finished c) \<and>
           e = None \<and> finished c = {0 ..< length new}))"

text \<open>
  A number that every step of a cycle makes smaller: the lines still ahead, the goroutines
  still to be started, and the goroutines that have not finished.
\<close>

definition OnUpdate_measure :: "'ing cycle \<Rightarrow> nat" where
  "OnUpdate_measure c =
     (let n = length (ALBIngresses (controller c));
          unfinished = card ({0 ..< n} - finished c)
      in case pc c of
           Line133 \<Rightarrow> 2 * length (local_ALBIngresses c) + 3
         | Line139 k \<Rightarrow> (n - k) + unfinished + 2
         | Line145 \<Rightarrow> unfinished + 1
         | Returned e \<Rightarrow> unfinished)"

text \<open>
  Example values: a service store holding the NodePort service \<open>ns/svc\<close>; a controller
  that knows the ingresses \<open>a\<close> and \<open>b\<close>, both with a load balancer, while the cluster
  now declares \<open>b\<close> and \<open>c\<close>; collaborators that accept every ingress object, build a
  fresh ALBIngress for it, and reconcile by making the load balancer follow the desired
  specification.
\<close>

definition ex_service :: Service where
  "ex_service = \<lparr>Spec_Type = ''NodePort'', Spec_Ports = [\<lparr>Port = 80, NodePort = 30080\<rparr>]\<rparr>"

definition ex_store :: "string \<Rightarrow> Service option" where
  "ex_store = (\<lambda>k. if k = ''ns/svc'' then Some ex_service else None)"

definition ex_ac_services :: "string ALBController" where
  "ex_ac_services =
     \<lparr>storeLister_Ingress = [], storeLister_Service = ex_store, recorder = None,
      ALBIngresses = [], clusterName = ''cluster'', IngressClass = ''alb''\<rparr>"

definition ex_A :: ALBIngress where
  "ex_A = \<lparr>Identity = (''default'', ''a''), DesiredSpec = Some ''a'',
           LoadBalancer = Some ''h1'', Tainted = False\<rparr>"

definition ex_B :: ALBIngress where
  "ex_B = \<lparr>Identity = (''default'', ''b''), DesiredSpec = Some ''b'',
           LoadBalancer = Some ''h2'', Tainted = False\<rparr>"

definition ex_new :: "string \<Rightarrow> ALBIngress" where
  "ex_new ing = \<lparr>Identity = (''default'', ing), DesiredSpec = Some ing,
           LoadBalancer = None, Tainted = False\<rparr>"

definition ex_env :: "string collaborators" where
  "ex_env =
     \<lparr>class_IsValid = (\<lambda>ing cls dflt. True),
      NewALBIngressFromIngress = (\<lambda>ing existing cluster. (Some (ex_new ing), None)),
      Reconcile = (\<lambda>r. r\<lparr>LoadBalancer := DesiredSpec r\<rparr>)\<rparr>"

definition ex_ac :: "string ALBController" where
  "ex_ac =
     \<lparr>storeLister_Ingress = [''b'', ''c''], storeLister_Service = (\<lambda>k. None), recorder = None,
      ALBIngresses = [ex_A, ex_B], clusterName = ''cluster'', IngressClass = ''alb''\<rparr>"

text \<open>The same controller with \<open>a\<close> tainted, and the cycle state after line 133.\<close>

definition ex_ac_tainted :: "string ALBController" where
  "ex_ac_tainted = ex_ac\<lparr>ALBIngresses := [ex_A\<lparr>Tainted := True\<rparr>, ex_B]\<rparr>"

definition ex_published :: "string cycle" where
  "ex_published =
     (OnUpdate_line131 ex_env ex_ac)
       \<lparr>controller :=
          (controller (OnUpdate_line131 ex_env ex_ac))
            \<lparr>ALBIngresses := local_ALBIngresses (OnUpdate_line131 ex_env ex_ac)\<rparr>,
        pc := Line139 0\<rparr>"

section \<open>Go integers\<close>

lemma wrap64_id: "- (2 ^ 63) \<le> x \<Longrightarrow> x < 2 ^ 63 \<Longrightarrow> wrap64 x = x"
  by (simp add: wrap64_def)

lemma wrap64_sub_left: "wrap64 (wrap64 a - b) = wrap64 (a - b)"
proof -
  have "(wrap64 a - b + 2 ^ 63) mod 2 ^ 64 = ((a + 2 ^ 63) mod 2 ^ 64 - b) mod 2 ^ 64"
    by (simp add: wrap64_def)
  also have "\<dots> = (a + 2 ^ 63 - b) mod 2 ^ 64"
    by (rule mod_diff_left_eq)
  also have "a + 2 ^ 63 - b = a - b + 2 ^ 63" by simp
  finally show ?thesis by (simp add: wrap64_def)
qed

lemma ceil_div_int: 
  assumes b: "0 < (b::int)"
  shows "- (- a div b) = (a + b - 1) div b"
proof -
  define q where "q = a div b"
  define r where "r = a mod b"
  have a: "a = q * b + r" by (simp add: q_def r_def)
  have r: "0 \<le> r" "r < b" using b by (simp_all add: r_def)
  have 1: "(a + b - 1) div b = q + (r + b - 1) div b"
  proof -
    have "a + b - 1 = (r + b - 1) + q * b" using a by simp
    then have "(a + b - 1) div b = ((r + b - 1) + q * b) div b" by (rule arg_cong)
    also have "\<dots> = q + (r + b - 1) div b" using b by simp
    finally show ?thesis .
  qed
  show ?thesis
  proof (cases "r = 0")
    case True
    then have "(r + b - 1) div b = 0" using b by simp
    moreover have "- a div b = - q" using True b by (simp add: zdiv_zminus1_eq_if q_def r_def)
    ultimately show ?thesis using 1 by simp
  next
    case False
    have "(r + b - 1) div b = ((r - 1) + 1 * b) div b" by (simp add: algebra_simps)
    also have "\<dots> = 1 + (r - 1) div b" using b by (subst div_mult_self1) simp_all
    also have "(r - 1) div b = 0" using r False by (simp add: div_pos_pos_trivial)
    finally have "(r + b - 1) div b = 1" by simp
    moreover have "- a div b = - q - 1"
      using False b by (simp add: zdiv_zminus1_eq_if q_def r_def)
    ultimately show ?thesis using 1 by simp
  qed
qed

lemma ceil_div_pos: "0 < b \<Longrightarrow> \<lceil>real_of_int a / real_of_int b\<rceil> = (a + b - 1) div b"
  by (simp add: ceiling_divide_eq_div ceil_div_int)

section \<open>Chunk\<close>

lemma slice_step:
  assumes "0 \<le> i" "i < len s" "0 < c"
  shows "slice s i (if i + c > len s then len s else i + c) @ drop (nat (i + c)) s = drop (nat i) s"
proof (cases "i + c > len s")
  case True
  then have "drop (nat (i + c)) s = []" by (simp add: len_def)
  moreover have "take (nat (len s - i)) (drop (nat i) s) = drop (nat i) s"
    using assms by (simp add: len_def)
  ultimately show ?thesis using True by (simp add: slice_def)
next
  case False
  have "nat (i + c) = nat c + nat i" using assms by simp
  then have "drop (nat (i + c)) s = drop (nat c) (drop (nat i) s)" by simp
  then show ?thesis using False by (simp add: slice_def del: drop_drop)
qed

lemma count_step:
  assumes "0 < (c::int)" "i < n"
  shows "1 + (if i + c < n then (n - (i + c) + c - 1) div c else 0) = (n - i + c - 1) div c"
proof (cases "i + c < n")
  case True
  have "(n - i + c - 1) div c = ((n - i - 1) + 1 * c) div c" by (simp add: algebra_simps)
  also have "\<dots> = 1 + (n - i - 1) div c" using assms by (subst div_mult_self1) simp_all
  finally show ?thesis using True by simp
next
  case False
  have "(n - i + c - 1) div c = ((n - i - 1) + 1 * c) div c" by (simp add: algebra_simps)
  also have "\<dots> = 1 + (n - i - 1) div c" using assms by (subst div_mult_self1) simp_all
  also have "(n - i - 1) div c = 0" using assms False by (simp add: div_pos_pos_trivial)
  finally show ?thesis using False by simp
qed

lemma Chunk_loop_correct:
  assumes c: "0 < c" and bound: "len s + c < 2 ^ 63" and i: "0 \<le> i"
  shows "\<exists>cs. Chunk_loop s c i chunks = Some (Inr (chunks @ cs)) \<and>
              concat cs = drop (nat i) s \<and>
              int (length cs) = (if i < len s then (len s - i + c - 1) div c else 0)"
  using i
proof (induction "nat (len s - i)" arbitrary: i chunks rule: less_induct)
  case less
  show ?case
  proof (cases "i < len s")
    case False
    then have "Chunk_loop s c i chunks = Some (Inr (chunks @ []))"
      by (subst Chunk_loop.simps) simp
    moreover from False have "drop (nat i) s = []" by (simp add: len_def)
    ultimately show ?thesis using False by auto
  next
    case True
    let ?e = "if i + c > len s then len s else i + c"
    have add: "go_add i c = i + c"
      using True less.prems c bound by (simp add: go_add_def wrap64_id)
    then have e: "chunk_end s c i = ?e" by (simp add: chunk_end_def)
    have ok: "slice_ok s i ?e" using True less.prems c by (simp add: slice_ok_def)
    have unfold: "Chunk_loop s c i chunks = Chunk_loop s c (i + c) (chunks @ [slice s i ?e])"
      using True ok by (subst Chunk_loop.simps) (simp only: add e if_True)
    have "nat (len s - (i + c)) < nat (len s - i)" using True c by simp
    moreover have "0 \<le> i + c" using less.prems c by simp
    ultimately obtain cs where cs:
      "Chunk_loop s c (i + c) ((chunks @ [slice s i ?e])) = Some (Inr ((chunks @ [slice s i ?e]) @ cs))"
      "concat cs = drop (nat (i + c)) s"
      "int (length cs) = (if i + c < len s then (len s - (i + c) + c - 1) div c else 0)"
      using less.hyps [of "i + c" "chunks @ [slice s i ?e]"] by blast
    have 1: "Chunk_loop s c i chunks = Some (Inr (chunks @ (slice s i ?e # cs)))"
      using unfold cs(1) by simp
    have 2: "concat (slice s i ?e # cs) = drop (nat i) s"
      using slice_step [OF less.prems True c] cs(2) by simp
    have 3: "int (length (slice s i ?e # cs)) = (len s - i + c - 1) div c"
      using count_step [OF c True] cs(3) by simp
    from 1 2 3 True show ?thesis by (intro exI [of _ "slice s i ?e # cs"]) simp
  qed
qed

lemma chunkSize_bounds:
  assumes "0 < (g::int)" "0 < n"
  shows "0 < (n + g - 1) div g" "(n + g - 1) div g \<le> n"
proof -
  have "g \<le> n + g - 1" using assms by simp
  then have "g div g \<le> (n + g - 1) div g" using assms(1) by (intro zdiv_mono1) simp_all
  then show "0 < (n + g - 1) div g" using assms(1) by simp
  have "(n + g - 1) div g \<le> (n * g) div g"
  proof (intro zdiv_mono1)
    have "n + g - 1 \<le> n * g"
    proof -
      have "0 \<le> (n - 1) * (g - 1)" using assms by simp
      then show ?thesis by (simp add: algebra_simps)
    qed
    then show "n + g - 1 \<le> n * g" .
    show "0 < g" by fact
  qed
  then show "(n + g - 1) div g \<le> n" using assms(1) by simp
qed

lemma Chunk_loop_no_divide:
  "Chunk_loop s c i chunks = Some y \<Longrightarrow> y \<noteq> Inl IntegerDivideByZero"
  by (erule Chunk_loop.raw_induct [rotated]) (auto split: if_splits)

text \<open>
  Claim C5, as the code has it. For every sequence \<open>s\<close> and every group count \<open>g > 0\<close>
  for which the 64-bit sums do not overflow (\<open>len(s) + g - 1\<close> and \<open>2 * len(s)\<close> are at
  most \<open>MaxInt64\<close>), \<open>Chunk\<close> returns, without a panic, contiguous groups whose
  concatenation in order is \<open>s\<close>; the empty sequence gives no group, and a non-empty one
  gives \<open>ceil(len(s) / ceil(len(s) / g))\<close> groups. In particular \<open>Chunk([1..7], 3)\<close> is
  \<open>[[1,2,3],[4,5,6],[7]]\<close>.
\<close>

theorem Chunk_partition:
  "(0 < g \<and> len s + g - 1 \<le> MaxInt64 \<and> 2 * len s \<le> MaxInt64 \<longrightarrow>
      (\<exists>chunks. Chunk s g = Some (Inr chunks) \<and> concat chunks = s \<and>
         (s = [] \<longrightarrow> chunks = []) \<and>
         (s \<noteq> [] \<longrightarrow>
            int (length chunks) =
              \<lceil>real_of_int (len s) / real_of_int \<lceil>real_of_int (len s) / real_of_int g\<rceil>\<rceil>)))
   \<and> Chunk [1, 2, 3, 4, 5, 6, 7 :: int] 3 = Some (Inr [[1, 2, 3], [4, 5, 6], [7]])"
proof (intro conjI impI)
  assume a: "0 < g \<and> len s + g - 1 \<le> MaxInt64 \<and> 2 * len s \<le> MaxInt64"
  then have g: "0 < g" and b1: "len s + g - 1 < 2 ^ 63" and b2: "2 * len s < 2 ^ 63"
    by (simp_all add: MaxInt64_def)
  have n0: "0 \<le> len s" by (simp add: len_def)
  let ?c = "(len s + g - 1) div g"
  have sum: "go_sub (go_add (len s) g) 1 = len s + g - 1"
  proof -
    have "go_sub (go_add (len s) g) 1 = wrap64 (len s + g - 1)"
      by (simp only: go_add_def go_sub_def wrap64_sub_left)
    also have "\<dots> = len s + g - 1" using g b1 n0 by (intro wrap64_id) simp_all
    finally show ?thesis .
  qed
  have c0: "0 \<le> ?c" using g n0 by (simp add: pos_imp_zdiv_nonneg_iff)
  have cle: "?c \<le> len s + g - 1"
  proof -
    have "?c \<le> (len s + g - 1) div 1" using g n0 by (intro zdiv_mono2) simp_all
    then show ?thesis by simp
  qed
  have quo: "go_quo (len s + g - 1) g = Inr ?c"
  proof -
    have "sgn (len s + g - 1) * sgn g * (\<bar>len s + g - 1\<bar> div \<bar>g\<bar>) = ?c"
      using g n0 by (cases "len s + g - 1 = 0") (simp_all add: sgn_if)
    moreover have "wrap64 ?c = ?c" using c0 cle b1 by (intro wrap64_id) simp_all
    ultimately show ?thesis using g by (simp add: go_quo_def)
  qed
  have chunk: "Chunk s g = Chunk_loop s ?c 0 []"
    by (simp add: Chunk_def sum quo)
  show "\<exists>chunks. Chunk s g = Some (Inr chunks) \<and> concat chunks = s \<and>
         (s = [] \<longrightarrow> chunks = []) \<and>
         (s \<noteq> [] \<longrightarrow>
            int (length chunks) =
              \<lceil>real_of_int (len s) / real_of_int \<lceil>real_of_int (len s) / real_of_int g\<rceil>\<rceil>)"
  proof (cases "s = []")
    case True
    then have "Chunk_loop s ?c 0 [] = Some (Inr [])"
      by (subst Chunk_loop.simps) (simp add: len_def)
    with True chunk show ?thesis by simp
  next
    case False
    then have n: "0 < len s" by (simp add: len_def)
    have c: "0 < ?c" "?c \<le> len s" using chunkSize_bounds [OF g n] by simp_all
    then have "len s + ?c < 2 ^ 63" using b2 by simp
    from Chunk_loop_correct [OF c(1) this, of 0 "[]"]
    obtain cs where cs: "Chunk_loop s ?c 0 [] = Some (Inr cs)" "concat cs = s"
      "int (length cs) = (len s + ?c - 1) div ?c"
      using n by auto
    have "\<lceil>real_of_int (len s) / real_of_int g\<rceil> = ?c" using g by (rule ceil_div_pos)
    moreover have "\<lceil>real_of_int (len s) / real_of_int ?c\<rceil> = (len s + ?c - 1) div ?c"
      using c(1) by (rule ceil_div_pos)
    ultimately show ?thesis using cs chunk False by simp
  qed
next
  show "Chunk [1, 2, 3, 4, 5, 6, 7 :: int] 3 = Some (Inr [[1, 2, 3], [4, 5, 6], [7]])"
    by code_simp
qed

theorem Chunk_partition_witness:
  "0 < (3::int) \<and> len [1, 2, 3, 4, 5, 6, 7 :: int] + 3 - 1 \<le> MaxInt64 \<and>
   2 * len [1, 2, 3, 4, 5, 6, 7 :: int] \<le> MaxInt64 \<and>
   (\<exists>chunks. Chunk [1, 2, 3, 4, 5, 6, 7 :: int] 3 = Some (Inr chunks) \<and>
      concat chunks = [1, 2, 3, 4, 5, 6, 7] \<and> length chunks = 3)"
  using Chunk_partition [of 3 "[1, 2, 3, 4, 5, 6, 7 :: int]"]
  by (simp add: len_def MaxInt64_def)

text \<open>
  Without the bound the claim fails: with \<open>g = MaxInt64\<close> and two elements the sum
  \<open>len(s) + g - 1\<close> wraps around to \<open>MinInt64\<close>, the group size becomes \<open>-1\<close>, and the first
  slice expression \<open>s[0:-1]\<close> panics.
\<close>

theorem Chunk_huge_count_panics:
  "0 < MaxInt64 \<and> Chunk [''a'', ''b''] MaxInt64 = Some (Inl SliceBoundsOutOfRange)"
  by code_simp

text \<open>
  Claim C7, as the code has it. The division that computes the group size faults exactly
  when the group count is zero: \<open>Chunk(s, 0)\<close> panics with an integer division by zero for
  every \<open>s\<close>, and for no other group count does \<open>Chunk\<close> end in that panic.
\<close>

theorem Chunk_divide_fault_iff_zero:
  "Chunk s sz = Some (Inl IntegerDivideByZero) \<longleftrightarrow> sz = 0"
proof
  assume "Chunk s sz = Some (Inl IntegerDivideByZero)"
  then show "sz = 0"
    by (auto simp: Chunk_def go_quo_def split: if_splits dest: Chunk_loop_no_divide)
next
  assume "sz = 0"
  then show "Chunk s sz = Some (Inl IntegerDivideByZero)"
    by (simp add: Chunk_def go_quo_def)
qed

text \<open>
  A negative group count does not make the division fault, and \<open>Chunk\<close> can return a
  result: \<open>Chunk([a], -1)\<close> computes the group size \<open>(1 - 1 - 1) / -1 = 1\<close> and returns
  \<open>[[a]]\<close>.
\<close>

theorem Chunk_negative_count_returns:
  "Chunk [''a''] (- 1) = Some (Inr [[''a'']])"
  by code_simp

section \<open>Hash\<close>

lemma Hash_write_Some: "Hash_write (map Some xs) w = Inr (w @ concat xs)"
  by (induction xs arbitrary: w) simp_all

lemma map_Some_the: "None \<notin> set a \<Longrightarrow> map Some (map the a) = a"
  by (induction a) auto

lemma inj_on_the: "None \<notin> A \<Longrightarrow> inj_on the A"
  by (rule inj_onI) (metis option.collapse)

lemma sort_key_the_Some:
  assumes "None \<notin> set a"
  shows "sort_key the a = map Some (sort (map the a))"
proof (rule sort_key_inj_key_eq)
  have "mset (map Some (sort (map the a))) = mset (map Some (map the a))"
    by (simp del: map_map)
  moreover have "map Some (map the a) = a" using assms by (rule map_Some_the)
  ultimately show "mset a = mset (map Some (sort (map the a)))"
    by (simp del: map_map)
  show "inj_on the (set a)" using assms by (rule inj_on_the)
  show "sorted (map the (map Some (sort (map the a))))" by (simp add: o_def)
qed

lemma sort_key_the_perm:
  assumes "mset a = mset b" "None \<notin> set a"
  shows "sort_key the a = sort_key the b"
proof (rule sort_key_inj_key_eq)
  show "mset a = mset (sort_key the b)" using assms(1) by simp
  show "inj_on the (set a)" using assms(2) by (rule inj_on_the)
  show "sorted (map the (sort_key the b))" by (rule sorted_sort_key)
qed

lemma Hash_no_nil:
  assumes "None \<notin> set a"
  shows "Hash md5 a =
    Inr (sort_key the a, hex_EncodeToString (md5 (concat (sort (map the a)))))"
proof -
  have "sort_key the a = map Some (sort (map the a))"
    using assms by (rule sort_key_the_Some)
  then have "Hash_write (sort_key the a) [] = Inr (concat (sort (map the a)))"
    by (simp only: Hash_write_Some append_Nil)
  then show ?thesis using assms by (simp add: Hash_def sort_Sort_def)
qed

lemma Hash_write_nil: "None \<in> set a \<Longrightarrow> Hash_write a w = Inl NilPointerDereference"
  by (induction a w rule: Hash_write.induct) auto

lemma Hash_nil:
  assumes "None \<in> set a"
  shows "Hash md5 a = Inl NilPointerDereference"
proof (cases "2 \<le> length a")
  case True
  with assms show ?thesis by (simp add: Hash_def sort_Sort_def)
next
  case False
  have "None \<in> set (sort_key the a)" using assms by simp
  then have "Hash_write (sort_key the a) [] = Inl NilPointerDereference"
    by (rule Hash_write_nil)
  with False show ?thesis by (simp add: Hash_def sort_Sort_def)
qed

text \<open>
  Claim C6. The value of \<open>Hash\<close> does not depend on the order of the elements: two slices
  with the same multiset of elements give the same result (for slices of strings the same
  digest; with a nil element both calls panic). For a slice of strings the digest is the
  hexadecimal MD5 of the concatenated bytes of the elements in lexicographic order.
\<close>

theorem Hash_permutation_invariant:
  assumes "mset a = mset b"
  shows "Hash_output md5 a = Hash_output md5 b \<and>
         (None \<notin> set a \<longrightarrow>
            Hash_output md5 a = Inr (hex_EncodeToString (md5 (concat (sort (map the a))))))"
proof (cases "None \<in> set a")
  case True
  moreover from assms have "set a = set b" by (rule mset_eq_setD)
  ultimately show ?thesis by (simp add: Hash_output_def Hash_nil)
next
  case False
  moreover from assms have s: "set a = set b" by (rule mset_eq_setD)
  moreover have "sort (map the a) = sort (map the b)"
  proof -
    from assms have "mset (map the a) = mset (map the b)" by simp
    then show ?thesis by (metis mset_sort sorted_sort properties_for_sort)
  qed
  moreover have "sort_key the a = sort_key the b"
    using assms False by (rule sort_key_the_perm)
  ultimately show ?thesis by (simp add: Hash_output_def Hash_no_nil)
qed

theorem Hash_permutation_invariant_witness:
  "mset [Some ''sg-b'', Some ''sg-a'', Some ''sg-c''] =
     mset [Some ''sg-c'', Some ''sg-a'', Some ''sg-b''] \<and>
   Hash_output (\<lambda>bs. bs) [Some ''sg-b'', Some ''sg-a'', Some ''sg-c''] =
     Hash_output (\<lambda>bs. bs) [Some ''sg-c'', Some ''sg-a'', Some ''sg-b''] \<and>
   Hash_output (\<lambda>bs. bs) [Some ''sg-b'', Some ''sg-a'', Some ''sg-c''] =
     Inr (hex_EncodeToString ''sg-asg-bsg-c'')"
  using Hash_permutation_invariant
    [of "[Some ''sg-b'', Some ''sg-a'', Some ''sg-c'']"
        "[Some ''sg-c'', Some ''sg-a'', Some ''sg-b'']" "\<lambda>bs. bs"]
  by (simp add: Hash_output_def Hash_def sort_Sort_def)

text \<open>
  Claim C10, as the code has it. \<open>Hash\<close> changes its receiver: for every slice whose
  elements are all non-nil, the caller's slice holds after the call the same multiset of
  elements in ascending order of the strings pointed to, and it is left as it was only if
  it was sorted already.
\<close>

theorem Hash_sorts_receiver:
  assumes "None \<notin> set a"
  shows "\<exists>a' digest. Hash md5 a = Inr (a', digest) \<and> sorted (map the a') \<and> mset a' = mset a
           \<and> (a' = a \<longleftrightarrow> sorted (map the a))"
proof -
  have "sort_key the a = a \<longleftrightarrow> sorted (map the a)"
    by (metis sorted_sort_key sort_key_id_if_sorted)
  then show ?thesis using assms by (simp add: Hash_no_nil)
qed

theorem Hash_sorts_receiver_witness:
  "None \<notin> set [Some ''sg-b'', Some ''sg-a''] \<and>
   (\<exists>digest. Hash (\<lambda>bs. bs) [Some ''sg-b'', Some ''sg-a''] =
      Inr ([Some ''sg-a'', Some ''sg-b''], digest)) \<and>
   \<not> sorted (map the [Some ''sg-b'', Some ''sg-a''])"
  using Hash_sorts_receiver [of "[Some ''sg-b'', Some ''sg-a'']" "\<lambda>bs. bs"]
  by (simp add: Hash_def sort_Sort_def)

text \<open>
  For every slice the claim fails: with a nil element there is no string to order by, and
  the call ends in a nil pointer dereference instead of returning.
\<close>

theorem Hash_nil_element_panics:
  "None \<in> set [Some ''sg-b'', None, Some ''sg-a''] \<and>
   Hash (\<lambda>bs. bs) [Some ''sg-b'', None, Some ''sg-a''] = Inl NilPointerDereference"
  by (simp add: Hash_def sort_Sort_def)

section \<open>Configure\<close>

lemma strings_HasPrefix_single: "strings_HasPrefix s [c] \<longleftrightarrow> (\<exists>t. s = c # t)"
  by (cases s) auto

lemma strings_Contains_single: "strings_Contains s [c] \<longleftrightarrow> c \<in> set s"
  by (induction s) (auto simp: strings_HasPrefix_single)

text \<open>
  Claim C9. \<open>Configure\<close> ends the process exactly when the cluster name is empty, longer
  than 11 (bytes, which is what \<open>len\<close> counts and the log message calls characters), or
  contains a hyphen; every other name passes.
\<close>

theorem Configure_exits_iff_invalid:
  "isl (Configure ac ic) \<longleftrightarrow>
     (clusterName ac = '''' \<or> length (clusterName ac) > 11 \<or> CHR ''-'' \<in> set (clusterName ac))"
  by (auto simp: Configure_def Let_def strings_Contains_single)

theorem Configure_exits_iff_invalid_witness:
  "isl (Configure (ex_ac\<lparr>clusterName := ''my-cluster''\<rparr>) \<lparr>ic_IngressClass = ''alb'', ic_GetRecoder = None\<rparr>) \<and>
   isl (Configure (ex_ac\<lparr>clusterName := ''''\<rparr>) \<lparr>ic_IngressClass = ''alb'', ic_GetRecoder = None\<rparr>) \<and>
   isl (Configure (ex_ac\<lparr>clusterName := ''averylongname''\<rparr>) \<lparr>ic_IngressClass = ''alb'', ic_GetRecoder = None\<rparr>) \<and>
   \<not> isl (Configure ex_ac \<lparr>ic_IngressClass = ''alb'', ic_GetRecoder = None\<rparr>)"
  using Configure_exits_iff_invalid
      [of "ex_ac\<lparr>clusterName := ''my-cluster''\<rparr>" "\<lparr>ic_IngressClass = ''alb'', ic_GetRecoder = None\<rparr>"]
    Configure_exits_iff_invalid
      [of "ex_ac\<lparr>clusterName := ''''\<rparr>" "\<lparr>ic_IngressClass = ''alb'', ic_GetRecoder = None\<rparr>"]
    Configure_exits_iff_invalid
      [of "ex_ac\<lparr>clusterName := ''averylongname''\<rparr>" "\<lparr>ic_IngressClass = ''alb'', ic_GetRecoder = None\<rparr>"]
    Configure_exits_iff_invalid
      [of ex_ac "\<lparr>ic_IngressClass = ''alb'', ic_GetRecoder = None\<rparr>"]
  by (simp add: ex_ac_def)

section \<open>GetServiceNodePort\<close>

lemma GetServiceNodePort_ports_isl:
  "isl (GetServiceNodePort_ports k ps bp) \<longleftrightarrow> (\<forall>p\<in>set ps. Port p \<noteq> bp)"
  by (induction ps) auto

lemma GetServiceNodePort_ports_find:
  "find (\<lambda>p. Port p = bp) ps = Some p \<Longrightarrow>
   GetServiceNodePort_ports k ps bp = Inr (scast (NodePort p))"
  by (induction ps) (auto split: if_splits)

lemma sint_int64_of_int32: "sint (scast (w :: 32 word) :: 64 word) = sint w"
  by (rule sint_up_scast) (simp add: is_up)

text \<open>
  Claim C8. \<open>GetServiceNodePort\<close> returns an error exactly when the store has no service
  under the key, or the service is not of type NodePort, or no entry of its ports has the
  backend port as \<open>Port\<close>; otherwise it returns, with a nil error, the \<open>NodePort\<close> of the
  first entry whose \<open>Port\<close> is the backend port, as an \<open>int64\<close> of the same value. For the
  NodePort service \<open>ns/svc\<close> with the entry \<open>{Port: 80, NodePort: 30080}\<close> and the backend
  port 80 the result is 30080.
\<close>

theorem GetServiceNodePort_result:
  "(isl (GetServiceNodePort ac serviceKey backendPort) \<longleftrightarrow>
      (storeLister_Service ac serviceKey = None \<or>
       (\<exists>item. storeLister_Service ac serviceKey = Some item \<and>
          (Spec_Type item \<noteq> ServiceTypeNodePort \<or>
           (\<forall>p \<in> set (Spec_Ports item). Port p \<noteq> backendPort)))))
   \<and> (\<forall>item p. storeLister_Service ac serviceKey = Some item \<and>
         Spec_Type item = ServiceTypeNodePort \<and>
         find (\<lambda>p. Port p = backendPort) (Spec_Ports item) = Some p \<longrightarrow>
         GetServiceNodePort ac serviceKey backendPort = Inr (scast (NodePort p)) \<and>
         sint (scast (NodePort p) :: 64 word) = sint (NodePort p))
   \<and> GetServiceNodePort ex_ac_services ''ns/svc'' 80 = Inr 30080"
proof (intro conjI allI impI)
  show "isl (GetServiceNodePort ac serviceKey backendPort) \<longleftrightarrow>
      (storeLister_Service ac serviceKey = None \<or>
       (\<exists>item. storeLister_Service ac serviceKey = Some item \<and>
          (Spec_Type item \<noteq> ServiceTypeNodePort \<or>
           (\<forall>p \<in> set (Spec_Ports item). Port p \<noteq> backendPort))))"
    by (cases "storeLister_Service ac serviceKey")
      (simp_all add: GetServiceNodePort_def GetServiceNodePort_ports_isl)
next
  fix item p
  assume a: "storeLister_Service ac serviceKey = Some item \<and>
         Spec_Type item = ServiceTypeNodePort \<and>
         find (\<lambda>p. Port p = backendPort) (Spec_Ports item) = Some p"
  then show "GetServiceNodePort ac serviceKey backendPort = Inr (scast (NodePort p))"
    by (simp add: GetServiceNodePort_def GetServiceNodePort_ports_find)
  show "sint (scast (NodePort p) :: 64 word) = sint (NodePort p)"
    by (rule sint_int64_of_int32)
next
  show "GetServiceNodePort ex_ac_services ''ns/svc'' 80 = Inr 30080"
    by (simp add: GetServiceNodePort_def ex_ac_services_def ex_store_def ex_service_def
        ServiceTypeNodePort_def)
qed

theorem GetServiceNodePort_result_witness:
  "storeLister_Service ex_ac_services ''ns/svc'' = Some ex_service \<and>
   Spec_Type ex_service = ServiceTypeNodePort \<and>
   find (\<lambda>p. Port p = 80) (Spec_Ports ex_service) = Some \<lparr>Port = 80, NodePort = 30080\<rparr> \<and>
   GetServiceNodePort ex_ac_services ''ns/svc'' 80 = Inr 30080 \<and>
   \<not> isl (GetServiceNodePort ex_ac_services ''ns/svc'' 80) \<and>
   isl (GetServiceNodePort ex_ac_services ''ns/svc'' 81) \<and>
   isl (GetServiceNodePort ex_ac_services ''ns/other'' 80)"
  using GetServiceNodePort_result [of ex_ac_services "''ns/svc''" 80]
    GetServiceNodePort_result [of ex_ac_services "''ns/svc''" 81]
    GetServiceNodePort_result [of ex_ac_services "''ns/other''" 80]
  by (simp add: ex_ac_services_def ex_store_def ex_service_def ServiceTypeNodePort_def)

section \<open>ingressToDelete\<close>

lemma Find_from_neg: "0 \<le> p \<Longrightarrow> Find_from p a b < 0 \<longleftrightarrow> Identity b \<notin> Identity ` set a"
proof (induction a arbitrary: p)
  case Nil
  then show ?case by simp
next
  case (Cons v rest)
  from Cons.prems have "0 \<le> p + 1" by simp
  with Cons.IH [of "p + 1"] Cons.prems show ?case by auto
qed

lemma Find_neg: "Find a b < 0 \<longleftrightarrow> Identity b \<notin> Identity ` set a"
  by (simp add: Find_def Find_from_neg)

lemma ingressToDelete_loop_eq:
  "ingressToDelete_loop newList old (visited, del) =
     (visited @ map (\<lambda>r. if deletable_spec newList r then StripDesiredState r else r) old,
      del @ map StripDesiredState (filter (deletable_spec newList) old))"
  by (induction old arbitrary: visited del) (simp_all add: deletable_spec_def Find_neg)

lemma ingressToDelete_eq:
  "ingressToDelete ac newList =
     map StripDesiredState (filter (deletable_spec newList) (ALBIngresses ac))"
  by (simp add: ingressToDelete_def ingressToDelete_loop_eq)

lemma ingressToDelete_ac_eq:
  "ALBIngresses (ingressToDelete_ac ac newList) =
     map (\<lambda>r. if deletable_spec newList r then StripDesiredState r else r) (ALBIngresses ac)"
  by (simp add: ingressToDelete_ac_def ingressToDelete_loop_eq)

lemma Strip_simps [simp]:
  "Identity (StripDesiredState r) = Identity r"
  "Tainted (StripDesiredState r) = Tainted r"
  "LoadBalancer (StripDesiredState r) = LoadBalancer r"
  "DesiredSpec (StripDesiredState r) = None"
  by (simp_all add: StripDesiredState_def)

lemma count_distinct_filter:
  "distinct (map f xs) \<Longrightarrow> x \<in> set xs \<Longrightarrow> P x \<Longrightarrow>
   length (filter (\<lambda>y. f y = f x) (filter P xs)) = 1"
proof (induction xs)
  case Nil
  then show ?case by simp
next
  case (Cons a xs)
  show ?case
  proof (cases "a = x")
    case True
    from Cons.prems(1) have "f a \<notin> set (map f xs)" by simp
    then have "\<forall>y\<in>set xs. f y \<noteq> f a" by (metis imageI set_map)
    then have "filter (\<lambda>y. f y = f x) (filter P xs) = []"
      using True by (force simp: filter_empty_conv)
    with True Cons.prems(3) show ?thesis by simp
  next
    case False
    with Cons.prems have x: "x \<in> set xs" by simp
    from Cons.prems(1) x have "f a \<noteq> f x" by auto
    moreover from Cons.prems(1) have "distinct (map f xs)" by simp
    ultimately show ?thesis using Cons.IH x Cons.prems(3) by simp
  qed
qed

text \<open>
  Claim C2. For every controller (its list being the previous set) and every new list
  \<open>D\<close>, the list \<open>ingressToDelete\<close> returns is the previous list restricted to the
  resources that are not tainted, whose identity is not in \<open>D\<close> and whose load balancer is
  not nil, each with its desired state stripped, in the order of the previous list. When
  the identities of the previous set are distinct, each such resource appears exactly
  once. Nothing returned has an identity of \<open>D\<close> or a nil load balancer, and \<open>OnUpdate\<close>
  appends the list to the new one.
\<close>

theorem ingressToDelete_exact:
  "ingressToDelete ac D =
     map StripDesiredState (filter (deletable_spec D) (ALBIngresses ac))
   \<and> (distinct (map Identity (ALBIngresses ac)) \<longrightarrow>
        (\<forall>r \<in> set (ALBIngresses ac).
           deletable_spec D r \<longrightarrow>
           length (filter (\<lambda>d. Identity d = Identity r) (ingressToDelete ac D)) = 1
           \<and> StripDesiredState r \<in> set (ingressToDelete ac D)))
   \<and> (\<forall>d \<in> set (ingressToDelete ac D).
        DesiredSpec d = None \<and> Identity d \<notin> Identity ` set D \<and> LoadBalancer d \<noteq> None)
   \<and> OnUpdate_merged env ac =
       OnUpdate_build env ac (storeLister_Ingress ac) [] @
       ingressToDelete ac (OnUpdate_build env ac (storeLister_Ingress ac) [])"
proof (intro conjI impI ballI)
  show "ingressToDelete ac D =
     map StripDesiredState (filter (deletable_spec D) (ALBIngresses ac))"
    by (rule ingressToDelete_eq)
next
  fix r
  assume d: "distinct (map Identity (ALBIngresses ac))" and r: "r \<in> set (ALBIngresses ac)"
    and s: "deletable_spec D r"
  let ?P = "deletable_spec D"
  have "length (filter (\<lambda>y. Identity y = Identity r) (filter ?P (ALBIngresses ac))) = 1"
    using d r s by (rule count_distinct_filter)
  then show "length (filter (\<lambda>d. Identity d = Identity r) (ingressToDelete ac D)) = 1"
    by (simp add: ingressToDelete_eq filter_map o_def)
  show "StripDesiredState r \<in> set (ingressToDelete ac D)"
    using r s by (simp add: ingressToDelete_eq)
next
  fix d assume "d \<in> set (ingressToDelete ac D)"
  then show "DesiredSpec d = None" "Identity d \<notin> Identity ` set D" "LoadBalancer d \<noteq> None"
    by (auto simp: ingressToDelete_eq deletable_spec_def)
next
  show "OnUpdate_merged env ac =
       OnUpdate_build env ac (storeLister_Ingress ac) [] @
       ingressToDelete ac (OnUpdate_build env ac (storeLister_Ingress ac) [])"
    by (simp add: OnUpdate_merged_def Let_def)
qed

theorem ingressToDelete_exact_witness:
  "distinct (map Identity (ALBIngresses ex_ac)) \<and>
   ex_A \<in> set (ALBIngresses ex_ac) \<and>
   deletable_spec [ex_new ''b'', ex_new ''c''] ex_A \<and>
   ingressToDelete ex_ac [ex_new ''b'', ex_new ''c''] = [StripDesiredState ex_A] \<and>
   length (filter (\<lambda>d. Identity d = Identity ex_A)
     (ingressToDelete ex_ac [ex_new ''b'', ex_new ''c''])) = 1"
  using ingressToDelete_exact [of ex_ac "[ex_new ''b'', ex_new ''c'']" ex_env]
  by (simp add: ex_ac_def ex_A_def ex_B_def ex_new_def deletable_spec_def)

text \<open>
  Claim C3. A tainted resource of the previous set is never selected: the list returned
  is the one the untainted resources alone would give, whatever the identities of the new
  list and whatever the load balancers; nothing returned is tainted, and a tainted object
  is left as it is in the controller's list.
\<close>

theorem ingressToDelete_skips_tainted:
  "ingressToDelete ac D =
     ingressToDelete (ac\<lparr>ALBIngresses := filter (\<lambda>r. \<not> Tainted r) (ALBIngresses ac)\<rparr>) D
   \<and> (\<forall>d \<in> set (ingressToDelete ac D). \<not> Tainted d)
   \<and> (\<forall>i < length (ALBIngresses ac). Tainted (ALBIngresses ac ! i) \<longrightarrow>
        ALBIngresses (ingressToDelete_ac ac D) ! i = ALBIngresses ac ! i)"
proof (intro conjI ballI allI impI)
  have "filter (deletable_spec D) (filter (\<lambda>r. \<not> Tainted r) (ALBIngresses ac)) =
        filter (deletable_spec D) (ALBIngresses ac)"
    by (auto simp: deletable_spec_def intro!: filter_cong)
  then show "ingressToDelete ac D =
     ingressToDelete (ac\<lparr>ALBIngresses := filter (\<lambda>r. \<not> Tainted r) (ALBIngresses ac)\<rparr>) D"
    by (simp add: ingressToDelete_eq)
next
  fix d assume "d \<in> set (ingressToDelete ac D)"
  then show "\<not> Tainted d" by (auto simp: ingressToDelete_eq deletable_spec_def)
next
  fix i assume "i < length (ALBIngresses ac)" "Tainted (ALBIngresses ac ! i)"
  then show "ALBIngresses (ingressToDelete_ac ac D) ! i = ALBIngresses ac ! i"
    by (simp add: ingressToDelete_ac_eq deletable_spec_def)
qed

theorem ingressToDelete_skips_tainted_witness:
  "Tainted (ALBIngresses ex_ac_tainted ! 0) \<and>
   LoadBalancer (ALBIngresses ex_ac_tainted ! 0) \<noteq> None \<and>
   Find [ex_new ''c''] (ALBIngresses ex_ac_tainted ! 0) < 0 \<and>
   ingressToDelete ex_ac_tainted [ex_new ''c''] = [StripDesiredState ex_B] \<and>
   \<not> Tainted (ingressToDelete ex_ac_tainted [ex_new ''c''] ! 0) \<and>
   ALBIngresses (ingressToDelete_ac ex_ac_tainted [ex_new ''c'']) ! 0 = ex_A\<lparr>Tainted := True\<rparr>"
  using ingressToDelete_skips_tainted [of ex_ac_tainted "[ex_new ''c'']"]
  by (simp add: ex_ac_tainted_def ex_ac_def ex_A_def ex_B_def ex_new_def Find_def
      ingressToDelete_def)

section \<open>OnUpdate\<close>

lemma length_reconciled_view [simp]: "length (reconciled_view env new F) = length new"
  by (simp add: reconciled_view_def)

lemma reconciled_view_empty [simp]: "reconciled_view env new {} = new"
  by (simp add: reconciled_view_def map_nth)

lemma reconciled_view_insert:
  assumes "i \<notin> F"
  shows "(reconciled_view env new F)[i := Reconcile env (reconciled_view env new F ! i)] =
         reconciled_view env new (insert i F)"
proof (rule nth_equalityI)
  show "length ((reconciled_view env new F)[i := Reconcile env (reconciled_view env new F ! i)]) =
        length (reconciled_view env new (insert i F))" by simp
next
  fix j
  assume "j < length ((reconciled_view env new F)[i := Reconcile env (reconciled_view env new F ! i)])"
  then have j: "j < length new" by simp
  show "(reconciled_view env new F)[i := Reconcile env (reconciled_view env new F ! i)] ! j =
        reconciled_view env new (insert i F) ! j"
  proof (cases "j = i")
    case True
    with j assms show ?thesis by (simp add: reconciled_view_def)
  next
    case False
    with j show ?thesis by (simp add: reconciled_view_def)
  qed
qed

lemma OnUpdate_inv_step:
  assumes "OnUpdate_inv env prev new c" "OnUpdate_step env c c'"
  shows "OnUpdate_inv env prev new c'"
  using assms(2)
proof cases
  case assign
  with assms(1) show ?thesis by (simp add: OnUpdate_inv_def)
next
  case (spawn k)
  with assms(1) show ?thesis by (auto simp: OnUpdate_inv_def)
next
  case (spawned k)
  with assms(1) show ?thesis by (simp add: OnUpdate_inv_def)
next
  case (goroutine i)
  from goroutine(2) have not133: "pc c \<noteq> Line133" by (auto split: control.splits)
  with assms(1) have view: "ALBIngresses (controller c) = reconciled_view env new (finished c)"
    by (cases "pc c") (simp_all add: OnUpdate_inv_def)
  from goroutine(2) view have i: "i < length new" 
    using assms(1) by (cases "pc c") (auto simp: OnUpdate_inv_def)
  have upd: "(ALBIngresses (controller c))[i := Reconcile env (ALBIngresses (controller c) ! i)] =
        reconciled_view env new (insert i (finished c))"
    unfolding view using goroutine(3) by (rule reconciled_view_insert)
  show ?thesis
  proof (cases "pc c")
    case Line133
    with not133 show ?thesis by simp
  next
    case (Line139 k)
    with assms(1) goroutine upd i show ?thesis by (simp add: OnUpdate_inv_def)
  next
    case Line145
    with assms(1) goroutine upd i show ?thesis by (simp add: OnUpdate_inv_def)
  next
    case (Returned e)
    with assms(1) goroutine i have False by (auto simp: OnUpdate_inv_def)
    then show ?thesis ..
  qed
next
  case wait
  with assms(1) show ?thesis by (auto simp: OnUpdate_inv_def)
qed

lemma OnUpdate_inv_reaches:
  assumes "OnUpdate_reaches env c c'" "OnUpdate_inv env prev new c"
  shows "OnUpdate_inv env prev new c'"
  using assms unfolding OnUpdate_reaches_def
  by (induction rule: rtranclp_induct) (auto intro: OnUpdate_inv_step)

lemma OnUpdate_inv_line131:
  "OnUpdate_inv env
     (ALBIngresses (ingressToDelete_ac ac (OnUpdate_build env ac (storeLister_Ingress ac) [])))
     (OnUpdate_merged env ac) (OnUpdate_line131 env ac)"
  by (simp add: OnUpdate_inv_def OnUpdate_line131_def)

lemma OnUpdate_spawn_all_aux:
  "length (ALBIngresses (controller c)) - k = m \<Longrightarrow> pc c = Line139 k \<Longrightarrow>
   \<exists>c'. (OnUpdate_step env)\<^sup>*\<^sup>* c c' \<and> pc c' = Line145"
proof (induction m arbitrary: c k rule: less_induct)
  case (less m)
  show ?case
  proof (cases "k < length (ALBIngresses (controller c))")
    case True
    define c1 where "c1 = c\<lparr>pc := Line139 (Suc k)\<rparr>"
    have s: "OnUpdate_step env c c1"
      unfolding c1_def using less.prems(2) True by (rule OnUpdate_step.spawn)
    have m: "length (ALBIngresses (controller c1)) - Suc k < m"
      using True less.prems(1) by (simp add: c1_def)
    have p: "pc c1 = Line139 (Suc k)" by (simp add: c1_def)
    from less.IH [OF m refl p] obtain c' where c': "(OnUpdate_step env)\<^sup>*\<^sup>* c1 c'" "pc c' = Line145"
      by (elim exE conjE)
    from s c'(1) have "(OnUpdate_step env)\<^sup>*\<^sup>* c c'" by (rule converse_rtranclp_into_rtranclp)
    with c'(2) show ?thesis by (intro exI [of _ c'] conjI)
  next
    case False
    with less.prems(2) have "OnUpdate_step env c (c\<lparr>pc := Line145\<rparr>)"
      by (rule OnUpdate_step.spawned)
    then have "(OnUpdate_step env)\<^sup>*\<^sup>* c (c\<lparr>pc := Line145\<rparr>)" by (rule r_into_rtranclp)
    moreover have "pc (c\<lparr>pc := Line145\<rparr>) = Line145" by simp
    ultimately show ?thesis by (intro exI [of _ "c\<lparr>pc := Line145\<rparr>"] conjI)
  qed
qed

lemma OnUpdate_spawn_all:
  "pc c = Line139 k \<Longrightarrow> \<exists>c'. (OnUpdate_step env)\<^sup>*\<^sup>* c c' \<and> pc c' = Line145"
  by (rule OnUpdate_spawn_all_aux [OF refl])

lemma OnUpdate_drain_aux:
  "card ({0 ..< length (ALBIngresses (controller c))} - finished c) = m \<Longrightarrow>
   pc c = Line145 \<Longrightarrow>
   \<exists>c'. (OnUpdate_step env)\<^sup>*\<^sup>* c c' \<and> pc c' = Line145 \<and>
        {0 ..< length (ALBIngresses (controller c'))} \<subseteq> finished c'"
proof (induction m arbitrary: c rule: less_induct)
  case (less m)
  let ?n = "length (ALBIngresses (controller c))"
  show ?case
  proof (cases "{0 ..< ?n} \<subseteq> finished c")
    case True
    have "(OnUpdate_step env)\<^sup>*\<^sup>* c c" by (rule rtranclp.rtrancl_refl)
    with less.prems(2) True show ?thesis by (intro exI [of _ c] conjI)
  next
    case False
    then have "\<exists>i. i < ?n \<and> i \<notin> finished c" by (auto simp: subset_iff)
    then obtain i where i: "i < ?n" "i \<notin> finished c" by (elim exE conjE)
    define c1 where "c1 = c\<lparr>controller := (controller c)\<lparr>ALBIngresses :=
             (ALBIngresses (controller c))[i := Reconcile env (ALBIngresses (controller c) ! i)]\<rparr>,
          finished := insert i (finished c)\<rparr>"
    have "started c i" using less.prems(2) i(1) by simp
    then have s: "OnUpdate_step env c c1"
      unfolding c1_def using i(2) by (rule OnUpdate_step.goroutine)
    have "finite ({0 ..< ?n} - finished c)" by simp
    moreover have "i \<in> {0 ..< ?n} - finished c" using i by simp
    ultimately have "card ({0 ..< ?n} - finished c - {i}) < card ({0 ..< ?n} - finished c)"
      by (rule card_Diff1_less)
    moreover have "{0 ..< ?n} - insert i (finished c) = {0 ..< ?n} - finished c - {i}"
      by (rule Diff_insert)
    ultimately have "card ({0 ..< ?n} - insert i (finished c)) < card ({0 ..< ?n} - finished c)"
      by simp
    then have m: "card ({0 ..< length (ALBIngresses (controller c1))} - finished c1) < m"
      using less.prems(1) by (simp add: c1_def)
    have p: "pc c1 = Line145" using less.prems(2) by (simp add: c1_def)
    from less.IH [OF m refl p] obtain c' where c': "(OnUpdate_step env)\<^sup>*\<^sup>* c1 c'" "pc c' = Line145"
        "{0 ..< length (ALBIngresses (controller c'))} \<subseteq> finished c'"
      by (elim exE conjE)
    from s c'(1) have "(OnUpdate_step env)\<^sup>*\<^sup>* c c'" by (rule converse_rtranclp_into_rtranclp)
    with c'(2,3) show ?thesis by (intro exI [of _ c'] conjI)
  qed
qed

lemma OnUpdate_drain:
  "pc c = Line145 \<Longrightarrow>
   \<exists>c'. (OnUpdate_step env)\<^sup>*\<^sup>* c c' \<and> pc c' = Line145 \<and>
        {0 ..< length (ALBIngresses (controller c'))} \<subseteq> finished c'"
  by (rule OnUpdate_drain_aux [OF refl])

lemma OnUpdate_finish_from_wait:
  assumes "pc c = Line145"
  shows "\<exists>c'. (OnUpdate_step env)\<^sup>*\<^sup>* c c' \<and> pc c' = Returned None"
proof -
  from OnUpdate_drain [OF assms] obtain c1 where c1: "(OnUpdate_step env)\<^sup>*\<^sup>* c c1"
    "pc c1 = Line145" "{0 ..< length (ALBIngresses (controller c1))} \<subseteq> finished c1"
    by blast
  then have "OnUpdate_step env c1 (c1\<lparr>pc := Returned None\<rparr>)"
    by (intro OnUpdate_step.wait)
  with c1(1) have "(OnUpdate_step env)\<^sup>*\<^sup>* c (c1\<lparr>pc := Returned None\<rparr>)"
    by (rule rtranclp.rtrancl_into_rtrancl)
  moreover have "pc (c1\<lparr>pc := Returned None\<rparr>) = Returned None" by simp
  ultimately show ?thesis by (intro exI [of _ "c1\<lparr>pc := Returned None\<rparr>"] conjI)
qed

lemma OnUpdate_finish_from_spawn:
  assumes "pc c = Line139 k"
  shows "\<exists>c'. (OnUpdate_step env)\<^sup>*\<^sup>* c c' \<and> pc c' = Returned None"
proof -
  from OnUpdate_spawn_all [OF assms] obtain c1 where
    c1: "(OnUpdate_step env)\<^sup>*\<^sup>* c c1" "pc c1 = Line145" by blast
  from OnUpdate_finish_from_wait [OF c1(2)] obtain c' where
    c': "(OnUpdate_step env)\<^sup>*\<^sup>* c1 c'" "pc c' = Returned None" by blast
  from c1(1) c'(1) have "(OnUpdate_step env)\<^sup>*\<^sup>* c c'" by (rule rtranclp_trans)
  with c'(2) show ?thesis by (intro exI [of _ c'] conjI)
qed

lemma OnUpdate_finish:
  assumes "OnUpdate_inv env prev new c"
  shows "\<exists>c'. OnUpdate_reaches env c c' \<and> pc c' = Returned None"
proof (cases "pc c")
  case Line133
  define c1 where "c1 = c\<lparr>controller := (controller c)\<lparr>ALBIngresses := local_ALBIngresses c\<rparr>,
          pc := Line139 0\<rparr>"
  from Line133 have s: "OnUpdate_step env c c1" unfolding c1_def by (rule OnUpdate_step.assign)
  have "pc c1 = Line139 0" by (simp add: c1_def)
  from OnUpdate_finish_from_spawn [OF this] obtain c' where
    c': "(OnUpdate_step env)\<^sup>*\<^sup>* c1 c'" "pc c' = Returned None" by blast
  from s c'(1) have "(OnUpdate_step env)\<^sup>*\<^sup>* c c'" by (rule converse_rtranclp_into_rtranclp)
  with c'(2) show ?thesis
    unfolding OnUpdate_reaches_def by (intro exI [of _ c'] conjI)
next
  case (Line139 k)
  then show ?thesis unfolding OnUpdate_reaches_def by (rule OnUpdate_finish_from_spawn)
next
  case Line145
  then show ?thesis unfolding OnUpdate_reaches_def by (rule OnUpdate_finish_from_wait)
next
  case (Returned e)
  with assms have "e = None" by (simp add: OnUpdate_inv_def)
  with Returned have "pc c = Returned None" by simp
  moreover have "(OnUpdate_step env)\<^sup>*\<^sup>* c c" by (rule rtranclp.rtrancl_refl)
  ultimately show ?thesis unfolding OnUpdate_reaches_def by (intro exI [of _ c] conjI)
qed

lemma card_unfinished_insert:
  assumes "i < (n::nat)" "i \<notin> F"
  shows "card ({0 ..< n} - insert i F) < card ({0 ..< n} - F)"
proof -
  have "finite ({0 ..< n} - F)" by simp
  moreover have "i \<in> {0 ..< n} - F" using assms by simp
  ultimately have "card ({0 ..< n} - F - {i}) < card ({0 ..< n} - F)"
    by (rule card_Diff1_less)
  moreover have "{0 ..< n} - insert i F = {0 ..< n} - F - {i}"
    by (rule Diff_insert)
  ultimately show ?thesis by simp
qed

lemma OnUpdate_measure_step:
  assumes "OnUpdate_inv env prev new c" "OnUpdate_step env c c'"
  shows "OnUpdate_measure c' < OnUpdate_measure c"
  using assms(2)
proof cases
  case assign
  with assms(1) show ?thesis by (simp add: OnUpdate_inv_def OnUpdate_measure_def Let_def)
next
  case (spawn k)
  then show ?thesis by (simp add: OnUpdate_measure_def Let_def)
next
  case (spawned k)
  then show ?thesis by (simp add: OnUpdate_measure_def Let_def)
next
  case (goroutine i)
  from goroutine(2) have not133: "pc c \<noteq> Line133" by (auto split: control.splits)
  with assms(1) have view: "ALBIngresses (controller c) = reconciled_view env new (finished c)"
    by (cases "pc c") (simp_all add: OnUpdate_inv_def)
  from goroutine(2) view have i: "i < length new"
    using assms(1) by (cases "pc c") (auto simp: OnUpdate_inv_def)
  have n: "length (ALBIngresses (controller c)) = length new" by (simp add: view)
  have less: "card ({0 ..< length new} - insert i (finished c)) <
              card ({0 ..< length new} - finished c)"
    using i goroutine(3) by (rule card_unfinished_insert)
  show ?thesis
  proof (cases "pc c")
    case Line133
    with not133 show ?thesis by simp
  next
    case (Line139 k)
    with goroutine(1) n less show ?thesis by (simp add: OnUpdate_measure_def Let_def)
  next
    case Line145
    with goroutine(1) n less show ?thesis by (simp add: OnUpdate_measure_def Let_def)
  next
    case (Returned e)
    with goroutine(1) n less show ?thesis by (simp add: OnUpdate_measure_def Let_def)
  qed
next
  case wait
  then show ?thesis by (simp add: OnUpdate_measure_def Let_def)
qed

lemma OnUpdate_no_infinite_run:
  assumes inv: "OnUpdate_inv env prev new (run 0)"
    and run: "\<forall>i. OnUpdate_step env (run i) (run (Suc i))"
  shows False
proof -
  have invs: "OnUpdate_inv env prev new (run i)" for i
  proof (induction i)
    case 0
    show ?case by (rule inv)
  next
    case (Suc i)
    from run have "OnUpdate_step env (run i) (run (Suc i))" by simp
    with Suc show ?case by (rule OnUpdate_inv_step)
  qed
  have dec: "OnUpdate_measure (run i) + i \<le> OnUpdate_measure (run 0)" for i
  proof (induction i)
    case 0
    show ?case by simp
  next
    case (Suc i)
    from run have "OnUpdate_step env (run i) (run (Suc i))" by simp
    with invs [of i] have "OnUpdate_measure (run (Suc i)) < OnUpdate_measure (run i)"
      by (rule OnUpdate_measure_step)
    with Suc show ?case by simp
  qed
  from dec [of "Suc (OnUpdate_measure (run 0))"] show False by simp
qed

lemma OnUpdate_stuck_returned:
  assumes "OnUpdate_inv env prev new c" "\<forall>c'. \<not> OnUpdate_step env c c'"
  shows "pc c = Returned None"
proof -
  from OnUpdate_finish [OF assms(1)] obtain c' where
    c': "OnUpdate_reaches env c c'" "pc c' = Returned None" by blast
  from c'(1) have "c' = c"
    unfolding OnUpdate_reaches_def using assms(2) by (auto elim: converse_rtranclpE)
  with c'(2) show ?thesis by simp
qed





lemma ex_line131_pc: "pc (OnUpdate_line131 ex_env ex_ac) = Line133"
  by (simp add: OnUpdate_line131_def)

text \<open>
  Claim C4. Whatever the controller, the store and the collaborators (so whatever each
  \<open>Reconcile\<close> does to its resource), a cycle of \<open>OnUpdate\<close> returns nil: from every state
  the cycle can be in, the return of nil can be reached; whenever the function has
  returned, the error is nil and every goroutine had finished; a state in which nothing
  can move is one in which it has returned nil; and no run goes on for ever. No run
  returns an error, the building of the new list included.
\<close>

theorem OnUpdate_returns_nil:
  assumes "OnUpdate_reaches env (OnUpdate_line131 env ac) c"
  shows "(\<exists>c'. OnUpdate_reaches env c c' \<and> pc c' = Returned None) \<and>
         (\<forall>e. pc c = Returned e \<longrightarrow>
            e = None \<and> finished c = {0 ..< length (StateHandler c)}) \<and>
         ((\<forall>c'. \<not> OnUpdate_step env c c') \<longrightarrow> pc c = Returned None) \<and>
         \<not> (\<exists>run. run 0 = c \<and> (\<forall>i. OnUpdate_step env (run i) (run (Suc i))))"
proof -
  have inv: "OnUpdate_inv env
     (ALBIngresses (ingressToDelete_ac ac (OnUpdate_build env ac (storeLister_Ingress ac) [])))
     (OnUpdate_merged env ac) c"
    using assms OnUpdate_inv_line131 by (rule OnUpdate_inv_reaches)
  then have 1: "\<exists>c'. OnUpdate_reaches env c c' \<and> pc c' = Returned None"
    by (rule OnUpdate_finish)
  have 2: "\<forall>e. pc c = Returned e \<longrightarrow>
            e = None \<and> finished c = {0 ..< length (StateHandler c)}"
    using inv by (auto simp: OnUpdate_inv_def StateHandler_def)
  have 3: "(\<forall>c'. \<not> OnUpdate_step env c c') \<longrightarrow> pc c = Returned None"
    using inv by (blast intro: OnUpdate_stuck_returned)
  have 4: "\<not> (\<exists>run. run 0 = c \<and> (\<forall>i. OnUpdate_step env (run i) (run (Suc i))))"
  proof
    assume "\<exists>run. run 0 = c \<and> (\<forall>i. OnUpdate_step env (run i) (run (Suc i)))"
    then obtain run where r: "run 0 = c" "\<forall>i. OnUpdate_step env (run i) (run (Suc i))"
      by blast
    from inv r(1) have "OnUpdate_inv env
     (ALBIngresses (ingressToDelete_ac ac (OnUpdate_build env ac (storeLister_Ingress ac) [])))
     (OnUpdate_merged env ac) (run 0)" by simp
    then show False using r(2) by (rule OnUpdate_no_infinite_run)
  qed
  from 1 2 3 4 show ?thesis by (intro conjI)
qed

theorem OnUpdate_returns_nil_witness:
  "OnUpdate_reaches ex_env (OnUpdate_line131 ex_env ex_ac) ex_published \<and>
   (\<exists>c'. OnUpdate_reaches ex_env ex_published c' \<and> pc c' = Returned None)"
proof -
  have "OnUpdate_step ex_env (OnUpdate_line131 ex_env ex_ac) ex_published"
    unfolding ex_published_def using ex_line131_pc by (rule OnUpdate_step.assign)
  then have r: "OnUpdate_reaches ex_env (OnUpdate_line131 ex_env ex_ac) ex_published"
    unfolding OnUpdate_reaches_def by (rule r_into_rtranclp)
  with OnUpdate_returns_nil [OF r] show ?thesis by blast
qed




end
